theory Spec2Isabelle
  imports Main
begin

section \<open>Data model of Lookup.tsx\<close>

text \<open>
  \<^verbatim>\<open>type Entry = { label; value; icon?; scope?; category?; meta? }\<close>.
  Optional fields are \<open>option\<close>s; the enum \<^verbatim>\<open>IconCategory\<close> is declared in
  another module and is kept as its string name.
\<close>

record Entry =
  entry_label :: string
  entry_value :: string
  entry_icon :: "string option"
  entry_scope :: "string option"
  entry_category :: "string option"
  entry_meta :: "string option"

text \<open>\<^verbatim>\<open>type LookupScope = { label: string; value: string; icon: string }\<close>\<close>

record LookupScope =
  scope_label :: string
  scope_value :: string
  scope_icon :: string

text \<open>
  The properties of \<^verbatim>\<open>Lookup\<close> that its handlers and its render read. A stateful
  property \<^verbatim>\<open>p?: T\<close> is \<open>None\<close> when the caller leaves it undefined; \<^verbatim>\<open>selected\<close> may
  also be passed as \<^verbatim>\<open>null\<close>, which is \<open>Some None\<close>. An optional callback is
  represented by whether the caller supplied it: \<^verbatim>\<open>cb?.(x)\<close> calls it only then.
\<close>

record LookupProps =
  selected_prop :: "Entry option option"
  defaultSelected :: "Entry option option"
  opened_prop :: "bool option"
  defaultOpened :: "bool option"
  searchText_prop :: "string option"
  defaultSearchText :: "string option"
  targetScope_prop :: "string option"
  defaultTargetScope :: "string option"
  loading :: bool
  data :: "Entry list option"
  lookupFilter :: "(Entry \<Rightarrow> string \<Rightarrow> string \<Rightarrow> bool) option"
  listHeader :: bool
  listFooter :: bool
  scopes :: "LookupScope list option"
  has_onSelect :: bool
  has_onScopeMenuClick :: bool
  has_onScopeSelect :: bool
  has_onSearchTextChange :: bool
  has_onLookupRequest :: bool
  has_onBlur :: bool
  has_onComplete :: bool
  has_onKeyDown :: bool

text \<open>
  The cells the component holds between renders: the four cells behind
  \<^verbatim>\<open>useControlledValue\<close> and the plain \<^verbatim>\<open>useState(false)\<close> of
  \<^verbatim>\<open>focusFirstCandidate\<close>.
\<close>

record LookupState =
  selected_state :: "Entry option"
  opened_state :: bool
  searchText_state :: string
  targetScope_state :: string
  focusFirstCandidate :: bool

text \<open>Calls made on the caller's callbacks, in the order they are made.\<close>

datatype call =
    OnSelect "Entry option"
  | OnSearchTextChange string
  | OnLookupRequest string
  | OnScopeSelect string
  | OnScopeMenuClick
  | OnBlur
  | OnComplete "bool option"
  | OnKeyDown nat

text \<open>
  The bodies handed to \<^verbatim>\<open>setTimeout\<close>: focusing the search input, focusing the pill,
  clearing \<^verbatim>\<open>focusFirstCandidate\<close>, and the boundary check of \<^verbatim>\<open>onBlur\<close>.
\<close>

datatype timer = FocusSearchInput | FocusPill | ResetFocusFirstCandidate | BlurCheck

text \<open>
  What one handler run leaves behind: the cells after it, the calls it made on the caller,
  and the timers it scheduled with their delays in milliseconds.
\<close>

record outcome =
  st :: LookupState
  calls :: "call list"
  timers :: "(nat \<times> timer) list"

section \<open>Controlled and uncontrolled values\<close>

text \<open>
  Modelled from the spec: the hook \<^verbatim>\<open>useControlledValue\<close> is imported from
  \<^verbatim>\<open>./hooks\<close>, which is not among the sources. The spec (section 6): if the
  current-value property is supplied non-undefined, the widget treats it as externally
  owned and only ever reads it; otherwise it manages the value internally, seeded from
  the default. The first component of the hook's result is therefore the property when
  it is supplied and the state cell otherwise; the second component, the setter, writes
  the state cell and never the property.
\<close>

definition useControlledValue :: "'a option \<Rightarrow> 'a \<Rightarrow> 'a" where
  "useControlledValue v stateValue = (case v of Some x \<Rightarrow> x | None \<Rightarrow> stateValue)"

text \<open>\<^verbatim>\<open>x ?? d\<close> on an optional property.\<close>

definition nullish :: "'a option \<Rightarrow> 'a \<Rightarrow> 'a" where
  "nullish x d = (case x of Some v \<Rightarrow> v | None \<Rightarrow> d)"

text \<open>
  The cells at mount: \<^verbatim>\<open>defaultSelected ?? null\<close>, \<^verbatim>\<open>defaultOpened ?? false\<close>,
  \<^verbatim>\<open>defaultSearchText ?? ''\<close>, \<^verbatim>\<open>defaultTargetScope ?? ''\<close>, \<^verbatim>\<open>useState(false)\<close>.
\<close>

definition initState :: "LookupProps \<Rightarrow> LookupState" where
  "initState props =
     \<lparr> selected_state = nullish (defaultSelected props) None,
       opened_state = nullish (defaultOpened props) False,
       searchText_state = nullish (defaultSearchText props) [],
       targetScope_state = nullish (defaultTargetScope props) [],
       focusFirstCandidate = False \<rparr>"

text \<open>The values a render (and the handlers it creates) reads.\<close>

definition selected :: "LookupProps \<Rightarrow> LookupState \<Rightarrow> Entry option" where
  "selected props s = useControlledValue (selected_prop props) (selected_state s)"

definition opened :: "LookupProps \<Rightarrow> LookupState \<Rightarrow> bool" where
  "opened props s = useControlledValue (opened_prop props) (opened_state s)"

definition searchText :: "LookupProps \<Rightarrow> LookupState \<Rightarrow> string" where
  "searchText props s = useControlledValue (searchText_prop props) (searchText_state s)"

definition targetScope :: "LookupProps \<Rightarrow> LookupState \<Rightarrow> string" where
  "targetScope props s = useControlledValue (targetScope_prop props) (targetScope_state s)"

section \<open>The handlers of Lookup\<close>

text \<open>\<^verbatim>\<open>cb?.(x)\<close>: one call when the callback was supplied, none otherwise.\<close>

definition opt_call :: "bool \<Rightarrow> call \<Rightarrow> call list" where
  "opt_call supplied c = (if supplied then [c] else [])"

definition onScopeMenuClick :: "LookupProps \<Rightarrow> LookupState \<Rightarrow> outcome" where
  "onScopeMenuClick props s =
     \<lparr> st = s\<lparr>opened_state := False\<rparr>,
       calls = opt_call (has_onScopeMenuClick props) OnScopeMenuClick,
       timers = [] \<rparr>"

definition onScopeSelect :: "LookupProps \<Rightarrow> LookupState \<Rightarrow> string \<Rightarrow> outcome" where
  "onScopeSelect props s scope =
     \<lparr> st = s\<lparr>targetScope_state := scope\<rparr>,
       calls = opt_call (has_onScopeSelect props) (OnScopeSelect scope),
       timers = [] \<rparr>"

definition onSearchTextChange :: "LookupProps \<Rightarrow> LookupState \<Rightarrow> string \<Rightarrow> outcome" where
  "onSearchTextChange props s text =
     \<lparr> st = s\<lparr>searchText_state := text\<rparr>,
       calls = opt_call (has_onSearchTextChange props) (OnSearchTextChange text),
       timers = [] \<rparr>"

definition onLookupRequest :: "LookupProps \<Rightarrow> LookupState \<Rightarrow> string \<Rightarrow> outcome" where
  "onLookupRequest props s text =
     \<lparr> st = s\<lparr>opened_state := True\<rparr>,
       calls = opt_call (has_onLookupRequest props) (OnLookupRequest text),
       timers = [] \<rparr>"

text \<open>
  \<^verbatim>\<open>setSelected(null); onSelect_?.(null); onSearchTextChange(''); onLookupRequest('');
  setTimeout(focus the search input, 10)\<close>. None of the steps reads a cell, so running
  them one after the other on the cells is what the batched setters do.
\<close>

definition onResetSelection :: "LookupProps \<Rightarrow> LookupState \<Rightarrow> outcome" where
  "onResetSelection props s =
     (let s1 = s\<lparr>selected_state := None\<rparr>;
          c1 = opt_call (has_onSelect props) (OnSelect None);
          r2 = onSearchTextChange props s1 [];
          r3 = onLookupRequest props (st r2) []
      in \<lparr> st = st r3,
           calls = c1 @ calls r2 @ calls r3,
           timers = [(10, FocusSearchInput)] \<rparr>)"

text \<open>
  \<^verbatim>\<open>onLookupItemSelect(selected)\<close>: an entry is an object and so always truthy; the
  \<^verbatim>\<open>else\<close> branch is \<^verbatim>\<open>null\<close>. \<^verbatim>\<open>onComplete?.()\<close> follows both branches, without an
  argument.
\<close>

definition onLookupItemSelect :: "LookupProps \<Rightarrow> LookupState \<Rightarrow> Entry option \<Rightarrow> outcome" where
  "onLookupItemSelect props s sel =
     (case sel of
        Some e \<Rightarrow>
          \<lparr> st = s\<lparr>selected_state := Some e, opened_state := False\<rparr>,
            calls = opt_call (has_onSelect props) (OnSelect (Some e))
                    @ opt_call (has_onComplete props) (OnComplete None),
            timers = [(10, FocusPill)] \<rparr>
      | None \<Rightarrow>
          \<lparr> st = s\<lparr>opened_state := False\<rparr>,
            calls = opt_call (has_onComplete props) (OnComplete None),
            timers = [(10, FocusSearchInput)] \<rparr>)"

definition onFocusFirstCandidate :: "LookupProps \<Rightarrow> LookupState \<Rightarrow> outcome" where
  "onFocusFirstCandidate props s =
     (if \<not> opened props s then onLookupRequest props s (searchText props s)
      else \<lparr> st = s\<lparr>focusFirstCandidate := True\<rparr>,
             calls = [],
             timers = [(10, ResetFocusFirstCandidate)] \<rparr>)"

text \<open>\<^verbatim>\<open>onSubmit={() => onLookupRequest(searchText || '')}\<close>; the empty string is the
  only falsy string.\<close>

definition onSubmit :: "LookupProps \<Rightarrow> LookupState \<Rightarrow> outcome" where
  "onSubmit props s =
     onLookupRequest props s (if searchText props s \<noteq> [] then searchText props s else [])"

definition onBlur :: "LookupProps \<Rightarrow> LookupState \<Rightarrow> outcome" where
  "onBlur props s = \<lparr> st = s, calls = [], timers = [(500, BlurCheck)] \<rparr>"

text \<open>
  A timer body running. \<open>isFocusedInComponent\<close> is what the check
  \<^verbatim>\<open>isElInChildren(elRef.current, el) || isElInChildren(candidateListRef.current, el)\<close>
  on the active element answers at that moment; it is an input, since the document's
  focus is not a cell of the component. The two focus bodies only move the document's
  focus (when the element they look for is mounted) and leave the cells alone.
\<close>

fun runTimer :: "LookupProps \<Rightarrow> LookupState \<Rightarrow> bool \<Rightarrow> timer \<Rightarrow> outcome" where
  "runTimer props s isFocusedInComponent BlurCheck =
     (if \<not> isFocusedInComponent
      then \<lparr> st = s\<lparr>opened_state := False\<rparr>,
             calls = opt_call (has_onBlur props) OnBlur
                     @ opt_call (has_onComplete props) (OnComplete (Some True)),
             timers = [] \<rparr>
      else \<lparr> st = s, calls = [], timers = [] \<rparr>)"
| "runTimer props s isFocusedInComponent ResetFocusFirstCandidate =
     \<lparr> st = s\<lparr>focusFirstCandidate := False\<rparr>, calls = [], timers = [] \<rparr>"
| "runTimer props s isFocusedInComponent FocusSearchInput =
     \<lparr> st = s, calls = [], timers = [] \<rparr>"
| "runTimer props s isFocusedInComponent FocusPill =
     \<lparr> st = s, calls = [], timers = [] \<rparr>"

section \<open>What Lookup renders\<close>

text \<open>
  The children of the \<^verbatim>\<open>div.slds-lookup\<close>: the selection or the search bar, then
  the candidate list when \<^verbatim>\<open>opened\<close>. The list is handed \<^verbatim>\<open>data\<close>, the filter
  closed over \<^verbatim>\<open>searchText\<close> and \<^verbatim>\<open>targetScope\<close>, \<^verbatim>\<open>focusFirstCandidate\<close> and
  \<^verbatim>\<open>loading\<close>.
\<close>

datatype element =
    LookupSelection Entry
  | LookupSearch string string
  | LookupCandidateList "Entry list" bool bool

definition trueFilter :: "Entry \<Rightarrow> bool" where
  "trueFilter e = True"

definition candidateFilter :: "LookupProps \<Rightarrow> LookupState \<Rightarrow> Entry \<Rightarrow> bool" where
  "candidateFilter props s =
     (case lookupFilter props of
        Some f \<Rightarrow> (\<lambda>entry. f entry (searchText props s) (targetScope props s))
      | None \<Rightarrow> trueFilter)"

definition render :: "LookupProps \<Rightarrow> LookupState \<Rightarrow> element list" where
  "render props s =
     (case selected props s of
        Some e \<Rightarrow> LookupSelection e
      | None \<Rightarrow> LookupSearch (searchText props s) (targetScope props s))
     # (if opened props s
        then [LookupCandidateList
                (filter (candidateFilter props s) (nullish (data props) []))
                (focusFirstCandidate s) (loading props)]
        else [])"

fun isSelectionDisplay :: "element \<Rightarrow> bool" where
  "isSelectionDisplay (LookupSelection e) = True"
| "isSelectionDisplay x = False"

fun isSearchBar :: "element \<Rightarrow> bool" where
  "isSearchBar (LookupSearch t sc) = True"
| "isSearchBar x = False"

fun isCandidateList :: "element \<Rightarrow> bool" where
  "isCandidateList (LookupCandidateList d f l) = True"
| "isCandidateList x = False"

section \<open>LookupSearch: keys of the text field and the scope selector\<close>

text \<open>
  What \<^verbatim>\<open>LookupSearch\<close> calls on its own properties: \<^verbatim>\<open>onSubmit\<close>,
  \<^verbatim>\<open>onPressDown\<close>, \<^verbatim>\<open>onComplete(cancel?)\<close> and the generic \<^verbatim>\<open>onKeyDown\<close>
  with the event (kept as its key code).
\<close>

datatype search_call = Submit | PressDown | Complete "bool option" | KeyDown nat

record LookupSearchProps =
  ls_has_onSubmit :: bool
  ls_has_onPressDown :: bool
  ls_has_onComplete :: bool
  ls_has_onKeyDown :: bool

record keyOutcome =
  prevented :: bool
  emitted :: "search_call list"

definition opt_emit :: "bool \<Rightarrow> search_call \<Rightarrow> search_call list" where
  "opt_emit supplied c = (if supplied then [c] else [])"

text \<open>
  \<^verbatim>\<open>onInputKeyDown\<close>: \<open>text\<close> is \<^verbatim>\<open>e.currentTarget.value\<close>, truthy when not
  empty. \<open>prevented\<close> records \<^verbatim>\<open>preventDefault(); stopPropagation()\<close>. The last line,
  \<^verbatim>\<open>onKeyDown?.(e)\<close>, runs after every branch.
\<close>

definition onInputKeyDown :: "LookupSearchProps \<Rightarrow> nat \<Rightarrow> string \<Rightarrow> keyOutcome" where
  "onInputKeyDown sp keyCode text =
     (if keyCode = 13 then
        \<lparr> prevented = True,
          emitted = (if text \<noteq> [] then opt_emit (ls_has_onSubmit sp) Submit
                     else opt_emit (ls_has_onComplete sp) (Complete None))
                    @ opt_emit (ls_has_onKeyDown sp) (KeyDown keyCode) \<rparr>
      else if keyCode = 40 then
        \<lparr> prevented = True,
          emitted = opt_emit (ls_has_onPressDown sp) PressDown
                    @ opt_emit (ls_has_onKeyDown sp) (KeyDown keyCode) \<rparr>
      else if keyCode = 27 then
        \<lparr> prevented = True,
          emitted = opt_emit (ls_has_onComplete sp) (Complete (Some True))
                    @ opt_emit (ls_has_onKeyDown sp) (KeyDown keyCode) \<rparr>
      else
        \<lparr> prevented = False,
          emitted = opt_emit (ls_has_onKeyDown sp) (KeyDown keyCode) \<rparr>)"

text \<open>
  How \<^verbatim>\<open>Lookup\<close> fills the properties of its \<^verbatim>\<open>LookupSearch\<close>: \<^verbatim>\<open>onSubmit\<close> and
  \<^verbatim>\<open>onPressDown\<close> are always given, \<^verbatim>\<open>onComplete\<close> is the caller's own, and
  \<^verbatim>\<open>onKeyDown\<close> arrives with the rest properties \<^verbatim>\<open>...searchProps\<close>.
\<close>

definition searchPropsOf :: "LookupProps \<Rightarrow> LookupSearchProps" where
  "searchPropsOf props =
     \<lparr> ls_has_onSubmit = True,
       ls_has_onPressDown = True,
       ls_has_onComplete = has_onComplete props,
       ls_has_onKeyDown = has_onKeyDown props \<rparr>"

fun deliver :: "LookupProps \<Rightarrow> LookupState \<Rightarrow> search_call \<Rightarrow> outcome" where
  "deliver props s Submit = onSubmit props s"
| "deliver props s PressDown = onFocusFirstCandidate props s"
| "deliver props s (Complete c) = \<lparr> st = s, calls = [OnComplete c], timers = [] \<rparr>"
| "deliver props s (KeyDown k) = \<lparr> st = s, calls = [OnKeyDown k], timers = [] \<rparr>"

text \<open>
  The calls of one key event, delivered in order. At most the first of them touches the
  cells (the caller's \<^verbatim>\<open>onKeyDown\<close> and \<^verbatim>\<open>onComplete\<close> are outside the component),
  so every handler still reads the values of the render that created it.
\<close>

fun deliverAll :: "LookupProps \<Rightarrow> LookupState \<Rightarrow> search_call list \<Rightarrow> outcome" where
  "deliverAll props s [] = \<lparr> st = s, calls = [], timers = [] \<rparr>"
| "deliverAll props s (c # cs) =
     (let r = deliver props s c; r' = deliverAll props (st r) cs
      in \<lparr> st = st r', calls = calls r @ calls r', timers = timers r @ timers r' \<rparr>)"

definition searchKeyDown :: "LookupProps \<Rightarrow> LookupState \<Rightarrow> nat \<Rightarrow> string \<Rightarrow> outcome" where
  "searchKeyDown props s keyCode text =
     deliverAll props s (emitted (onInputKeyDown (searchPropsOf props) keyCode text))"

fun isComplete :: "call \<Rightarrow> bool" where
  "isComplete (OnComplete c) = True"
| "isComplete x = False"

text \<open>
  The scope shown on the selector: \<^verbatim>\<open>let target = scopes[0] || {}\<close>, then the loop
  that stops at the first scope whose value is \<^verbatim>\<open>targetScope\<close>. \<open>None\<close> is the empty
  object \<^verbatim>\<open>{}\<close> of an empty \<^verbatim>\<open>scopes\<close>; an undefined \<^verbatim>\<open>targetScope\<close> is \<open>None\<close> and
  equals no value.
\<close>

fun scanScopes :: "LookupScope option \<Rightarrow> LookupScope list \<Rightarrow> string option \<Rightarrow> LookupScope option" where
  "scanScopes target [] ts = target"
| "scanScopes target (scope # rest) ts =
     (if Some (scope_value scope) = ts then Some scope else scanScopes target rest ts)"

definition activeScope :: "LookupScope list \<Rightarrow> string option \<Rightarrow> LookupScope option" where
  "activeScope scs ts = scanScopes (case scs of [] \<Rightarrow> None | s0 # _ \<Rightarrow> Some s0) scs ts"

text \<open>\<^verbatim>\<open>target.icon || 'none'\<close>\<close>

definition scopeIcon :: "LookupScope option \<Rightarrow> string" where
  "scopeIcon target =
     (case target of
        None \<Rightarrow> ''none''
      | Some s \<Rightarrow> (if scope_icon s \<noteq> [] then scope_icon s else ''none''))"

section \<open>LookupCandidateList: rows and roving focus\<close>

text \<open>
  A child of the \<^verbatim>\<open>ul\<close>, as \<^verbatim>\<open>onKeyDown\<close> sees it: whether
  \<^verbatim>\<open>querySelector('.react-slds-candidate[tabIndex]')\<close> finds an anchor in it and, if so,
  the anchor's \<^verbatim>\<open>ariaDisabled\<close> (a string or null).
\<close>

datatype li = CandidateRow "string option" | PlainRow

text \<open>\<^verbatim>\<open>anchorEl && !anchorEl.ariaDisabled\<close>: null and the empty string are falsy.\<close>

fun focusable :: "li \<Rightarrow> bool" where
  "focusable (CandidateRow d) = (case d of None \<Rightarrow> True | Some v \<Rightarrow> v = [])"
| "focusable PlainRow = False"

text \<open>
  The rows the component itself renders: one anchor row per entry that passes the filter
  (no \<^verbatim>\<open>aria-disabled\<close> is set on it), then the spinner row when \<^verbatim>\<open>loading\<close>.
\<close>

definition renderRows :: "Entry list \<Rightarrow> (Entry \<Rightarrow> bool) \<Rightarrow> bool \<Rightarrow> li list" where
  "renderRows ds flt ld =
     map (\<lambda>entry. CandidateRow None) (filter flt ds) @ (if ld then [PlainRow] else [])"

text \<open>\<^verbatim>\<open>nextElementSibling\<close> (down) and \<^verbatim>\<open>previousElementSibling\<close> of row \<open>k\<close>.\<close>

definition sibling :: "bool \<Rightarrow> li list \<Rightarrow> nat \<Rightarrow> nat option" where
  "sibling down rows k =
     (if down then (if Suc k < length rows then Some (Suc k) else None)
      else (if 0 < k then Some (k - 1) else None))"

text \<open>
  The \<^verbatim>\<open>while (itemEl)\<close> loop: the row that gets the focus, if the loop finds one.
  An index that \<open>sibling\<close> returns is always within the rows; the bound in the test only
  keeps \<open>rows ! k\<close> defined for other arguments.
\<close>

function walk :: "bool \<Rightarrow> li list \<Rightarrow> nat option \<Rightarrow> nat option" where
  "walk down rows None = None"
| "walk down rows (Some k) =
     (if k < length rows \<and> focusable (rows ! k) then Some k
      else walk down rows (sibling down rows k))"
  by pat_completeness auto
termination
  by (relation "measure (\<lambda>(down, rows, item).
        case item of None \<Rightarrow> 0
        | Some k \<Rightarrow> if down then Suc (length rows - k) else Suc (Suc k))")
     (auto simp: sibling_def split: if_splits)

declare walk.simps [simp del]

record listKeyOutcome =
  focusIndex :: nat
  selects :: "Entry option list"

text \<open>
  \<^verbatim>\<open>onKeyDown\<close> of the list, the focus being on the anchor of row \<open>i\<close>: the row index
  that has the focus afterwards and the \<^verbatim>\<open>onSelect\<close> calls made.
\<close>

definition listOnKeyDown :: "bool \<Rightarrow> nat \<Rightarrow> li list \<Rightarrow> nat \<Rightarrow> listKeyOutcome" where
  "listOnKeyDown has_select keyCode rows i =
     (if keyCode = 38 \<or> keyCode = 40 then
        (case walk (keyCode = 40) rows (sibling (keyCode = 40) rows i) of
           Some j \<Rightarrow> \<lparr> focusIndex = j, selects = [] \<rparr>
         | None \<Rightarrow> \<lparr> focusIndex = i, selects = [] \<rparr>)
      else if keyCode = 27 then
        \<lparr> focusIndex = i, selects = (if has_select then [None] else []) \<rparr>
      else \<lparr> focusIndex = i, selects = [] \<rparr>)"

text \<open>The handlers of one row: \<^verbatim>\<open>e.keyCode === 13 && onSelect(entry)\<close> and the click.\<close>

definition rowOnKeyDown :: "bool \<Rightarrow> nat \<Rightarrow> Entry \<Rightarrow> Entry option list" where
  "rowOnKeyDown has_select keyCode entry =
     (if keyCode = 13 \<and> has_select then [Some entry] else [])"

definition rowOnClick :: "bool \<Rightarrow> Entry \<Rightarrow> Entry option list" where
  "rowOnClick has_select entry = (if has_select then [Some entry] else [])"

section \<open>Which blurs reach Lookup, and the pending checks\<close>

text \<open>
  The elements of the widget that can hold the focus, by the blur handler the component
  gives them. A control of the search bar (the input, the search button, the scope
  button) gets \<^verbatim>\<open>onInputBlur\<close>, which waits 10 ms and calls \<^verbatim>\<open>onBlur\<close> of
  \<^verbatim>\<open>Lookup\<close> only if the focus is then outside the search bar. The anchor of a
  candidate row gets \<^verbatim>\<open>onBlur\<close> of \<^verbatim>\<open>Lookup\<close> itself. \<^verbatim>\<open>LookupSelection\<close> is given
  no blur handler at all, so a blur of the pill reaches nothing.
\<close>

datatype blurred = SearchControl | CandidateAnchor | SelectionPill

text \<open>
  Whether a blur of the element ends in a call of \<^verbatim>\<open>onBlur\<close> of \<^verbatim>\<open>Lookup\<close>.
  \<open>isFocusedInSearch\<close> is what \<^verbatim>\<open>isFocusedInComponent\<close> of \<^verbatim>\<open>LookupSearch\<close> answers
  when its 10 ms timer runs; it is read for a search control only.
\<close>

definition blurReported :: "blurred \<Rightarrow> bool \<Rightarrow> bool" where
  "blurReported el isFocusedInSearch =
     (case el of
        SearchControl \<Rightarrow> \<not> isFocusedInSearch
      | CandidateAnchor \<Rightarrow> True
      | SelectionPill \<Rightarrow> False)"

definition elementBlur :: "LookupProps \<Rightarrow> LookupState \<Rightarrow> blurred \<Rightarrow> bool \<Rightarrow> outcome" where
  "elementBlur props s el isFocusedInSearch =
     (if blurReported el isFocusedInSearch then onBlur props s
      else \<lparr> st = s, calls = [], timers = [] \<rparr>)"

text \<open>
  Several blurs one after the other. No call of \<^verbatim>\<open>setTimeout\<close> in the component keeps
  the timer's handle, so nothing cancels a check once it is scheduled: the pending checks
  add up.
\<close>

fun blurAll :: "LookupProps \<Rightarrow> LookupState \<Rightarrow> (blurred \<times> bool) list \<Rightarrow> outcome" where
  "blurAll props s [] = \<lparr> st = s, calls = [], timers = [] \<rparr>"
| "blurAll props s ((el, isFocusedInSearch) # evs) =
     (let r = elementBlur props s el isFocusedInSearch; r' = blurAll props (st r) evs
      in \<lparr> st = st r', calls = calls r @ calls r', timers = timers r @ timers r' \<rparr>)"

text \<open>
  The pending timers running in the order they were scheduled, each paired with what the
  focus check of \<^verbatim>\<open>Lookup\<close> answers at the moment it runs.
\<close>

fun runPending :: "LookupProps \<Rightarrow> LookupState \<Rightarrow> ((nat \<times> timer) \<times> bool) list \<Rightarrow> outcome" where
  "runPending props s [] = \<lparr> st = s, calls = [], timers = [] \<rparr>"
| "runPending props s (((delay, t), isFocusedInComponent) # rest) =
     (let r = runTimer props s isFocusedInComponent t; r' = runPending props (st r) rest
      in \<lparr> st = st r', calls = calls r @ calls r', timers = timers r @ timers r' \<rparr>)"

text \<open>
  A run of blurs followed by the checks they left pending; a check without an answer in
  \<open>answers\<close> has not run yet.
\<close>

definition afterBlurs ::
  "LookupProps \<Rightarrow> LookupState \<Rightarrow> (blurred \<times> bool) list \<Rightarrow> bool list \<Rightarrow> outcome" where
  "afterBlurs props s evs answers =
     (let b = blurAll props s evs
      in runPending props (st b) (zip (timers b) answers))"

text \<open>
  The boundary checks pending after some reported blurs, with their answers; how many of
  a run of blurs are reported; how many checks found the focus outside.
\<close>

definition blurChecks :: "bool list \<Rightarrow> ((nat \<times> timer) \<times> bool) list" where
  "blurChecks answers = map (\<lambda>b. ((500, BlurCheck), b)) answers"

definition reportedBlurs :: "(blurred \<times> bool) list \<Rightarrow> nat" where
  "reportedBlurs evs =
     length (filter (\<lambda>(el, isFocusedInSearch). blurReported el isFocusedInSearch) evs)"

definition foundOutside :: "bool list \<Rightarrow> nat" where
  "foundOutside answers = length (filter Not answers)"

text \<open>What one check that finds the focus outside calls.\<close>

definition blurCalls :: "LookupProps \<Rightarrow> call list" where
  "blurCalls props =
     opt_call (has_onBlur props) OnBlur @ opt_call (has_onComplete props) (OnComplete (Some True))"

section \<open>Call classifiers and sample inputs\<close>

text \<open>Which callback a call went to.\<close>

fun isLookupRequest :: "call \<Rightarrow> bool" where
  "isLookupRequest (OnLookupRequest t) = True"
| "isLookupRequest x = False"

fun isBlur :: "call \<Rightarrow> bool" where
  "isBlur OnBlur = True"
| "isBlur x = False"

definition entryA :: Entry where
  "entryA = \<lparr> entry_label = ''Ann'', entry_value = ''1'', entry_icon = None,
     entry_scope = None, entry_category = None, entry_meta = None \<rparr>"

definition entryB :: Entry where
  "entryB = \<lparr> entry_label = ''Bob'', entry_value = ''2'', entry_icon = None,
     entry_scope = None, entry_category = None, entry_meta = None \<rparr>"

definition uncontrolledProps :: LookupProps where
  "uncontrolledProps = \<lparr> selected_prop = None, defaultSelected = None, opened_prop = None,
     defaultOpened = None, searchText_prop = None, defaultSearchText = Some ''ann'',
     targetScope_prop = None, defaultTargetScope = None, loading = False,
     data = Some [entryA, entryB], lookupFilter = None, listHeader = False,
     listFooter = False, scopes = None,
     has_onSelect = True, has_onScopeMenuClick = True, has_onScopeSelect = True,
     has_onSearchTextChange = True, has_onLookupRequest = True, has_onBlur = True,
     has_onComplete = True, has_onKeyDown = False \<rparr>"

definition controlledProps :: LookupProps where
  "controlledProps = uncontrolledProps \<lparr> selected_prop := Some (Some entryA),
     opened_prop := Some False, searchText_prop := Some ''ann'' \<rparr>"

definition controlledOpenProps :: LookupProps where
  "controlledOpenProps = uncontrolledProps \<lparr> opened_prop := Some True \<rparr>"

lemmas value_defs = selected_def opened_def searchText_def targetScope_def
  useControlledValue_def nullish_def initState_def
lemmas handler_defs = onScopeMenuClick_def onScopeSelect_def onSearchTextChange_def
  onLookupRequest_def onResetSelection_def onLookupItemSelect_def onFocusFirstCandidate_def
  onSubmit_def onBlur_def opt_call_def
lemmas search_defs = searchKeyDown_def onInputKeyDown_def searchPropsOf_def opt_emit_def
lemmas fixture_defs = entryA_def entryB_def uncontrolledProps_def controlledProps_def
  controlledOpenProps_def


definition demoRows :: "li list" where
  "demoRows = [CandidateRow None, CandidateRow (Some ''true''), PlainRow, CandidateRow None]"

definition demoScopes :: "LookupScope list" where
  "demoScopes =
     [\<lparr> scope_label = ''Account'', scope_value = ''acc'', scope_icon = ''account'' \<rparr>,
      \<lparr> scope_label = ''Contact'', scope_value = ''con'', scope_icon = ''contact'' \<rparr>]"

definition openedState :: LookupState where
  "openedState = (initState uncontrolledProps)\<lparr>opened_state := True\<rparr>"

definition pillOpenState :: LookupState where
  "pillOpenState = openedState\<lparr>selected_state := Some entryA\<rparr>"

definition threeRows :: "li list" where
  "threeRows = renderRows [entryA, entryB, entryA] trueFilter False"

section \<open>Rendering invariant\<close>

text \<open>
  C1: in every state the rendered tree holds the selection display exactly when
  \<open>selected\<close> is not null, the search bar exactly when it is null (so never both), and
  the candidate list exactly when \<open>opened\<close>, whatever the selection is.
\<close>

theorem render_exclusive:
  "(\<exists>x \<in> set (render props s). isSelectionDisplay x) = (selected props s \<noteq> None)
   \<and> (\<exists>x \<in> set (render props s). isSearchBar x) = (selected props s = None)
   \<and> (\<exists>x \<in> set (render props s). isCandidateList x) = opened props s
   \<and> \<not> ((\<exists>x \<in> set (render props s). isSelectionDisplay x)
        \<and> (\<exists>x \<in> set (render props s). isSearchBar x))"
  by (cases "selected props s") (simp_all add: render_def)

section \<open>Selecting an entry\<close>

text \<open>
  C2 (as amended): \<open>select(e)\<close> for an entry \<open>e\<close> writes \<open>e\<close> into the selection cell and
  \<open>False\<close> into the opened cell. The value the widget reads afterwards is \<open>e\<close> when
  \<open>selected\<close> is uncontrolled, and the list is closed when \<open>opened\<close> is uncontrolled; a
  controlled property keeps the value its owner passes. In every mode the transition is
  idempotent: a second \<open>select(e)\<close> leaves the cells as the first did.
\<close>

theorem select_commits:
  "st (onLookupItemSelect props s (Some e)) = s\<lparr>selected_state := Some e, opened_state := False\<rparr>
   \<and> (selected_prop props = None \<longrightarrow>
        selected props (st (onLookupItemSelect props s (Some e))) = Some e)
   \<and> (opened_prop props = None \<longrightarrow>
        \<not> opened props (st (onLookupItemSelect props s (Some e))))
   \<and> st (onLookupItemSelect props (st (onLookupItemSelect props s (Some e))) (Some e))
       = st (onLookupItemSelect props s (Some e))"
  by (simp add: onLookupItemSelect_def selected_def opened_def useControlledValue_def)

text \<open>The theorem at an uncontrolled widget, selecting the second entry.\<close>

theorem select_commits_witness:
  "selected_prop uncontrolledProps = None \<and> opened_prop uncontrolledProps = None
   \<and> selected uncontrolledProps
        (st (onLookupItemSelect uncontrolledProps (initState uncontrolledProps) (Some entryB)))
       = Some entryB
   \<and> \<not> opened uncontrolledProps
        (st (onLookupItemSelect uncontrolledProps (initState uncontrolledProps) (Some entryB)))"
proof -
  have h1: "selected_prop uncontrolledProps = None" by (simp add: uncontrolledProps_def)
  have h2: "opened_prop uncontrolledProps = None" by (simp add: uncontrolledProps_def)
  from select_commits [of uncontrolledProps "initState uncontrolledProps" entryB] h1 h2
  show ?thesis by blast
qed

text \<open>
  C2 as stated fails when the caller controls \<open>selected\<close>: with the property held at the
  first entry, selecting the second one leaves the value the widget reads at the first.
\<close>

theorem select_controlled_counterexample:
  "selected controlledProps
     (st (onLookupItemSelect controlledProps (initState controlledProps) (Some entryB)))
   \<noteq> Some entryB"
  by (simp add: value_defs handler_defs fixture_defs)

section \<open>Resetting the selection\<close>

text \<open>
  C3 (as amended): \<open>resetSelection\<close> writes null into the selection cell and the empty
  string into the search-text cell; the values the widget reads afterwards are null and
  the empty string for the properties that are uncontrolled. When the caller supplied
  \<open>onLookupRequest\<close>, it is called exactly once, with the empty string.
\<close>

theorem reset_selection:
  "selected_state (st (onResetSelection props s)) = None
   \<and> searchText_state (st (onResetSelection props s)) = []
   \<and> (selected_prop props = None \<longrightarrow> selected props (st (onResetSelection props s)) = None)
   \<and> (searchText_prop props = None \<longrightarrow> searchText props (st (onResetSelection props s)) = [])
   \<and> (has_onLookupRequest props \<longrightarrow>
        filter isLookupRequest (calls (onResetSelection props s)) = [OnLookupRequest []])"
  by (simp add: onResetSelection_def onSearchTextChange_def onLookupRequest_def opt_call_def
      selected_def searchText_def useControlledValue_def Let_def)

text \<open>The theorem at an uncontrolled widget.\<close>

theorem reset_selection_witness:
  "selected_prop uncontrolledProps = None \<and> searchText_prop uncontrolledProps = None
   \<and> has_onLookupRequest uncontrolledProps
   \<and> selected uncontrolledProps
        (st (onResetSelection uncontrolledProps (initState uncontrolledProps))) = None
   \<and> searchText uncontrolledProps
        (st (onResetSelection uncontrolledProps (initState uncontrolledProps))) = []
   \<and> filter isLookupRequest
        (calls (onResetSelection uncontrolledProps (initState uncontrolledProps)))
       = [OnLookupRequest []]"
proof -
  have h1: "selected_prop uncontrolledProps = None" by (simp add: uncontrolledProps_def)
  have h2: "searchText_prop uncontrolledProps = None" by (simp add: uncontrolledProps_def)
  have h3: "has_onLookupRequest uncontrolledProps" by (simp add: uncontrolledProps_def)
  from reset_selection [of uncontrolledProps "initState uncontrolledProps"] h1 h2 h3
  show ?thesis by blast
qed

text \<open>
  C3 as stated fails when the caller controls \<open>selected\<close> and \<open>searchText\<close>: after the
  reset the widget still reads the entry and the text the caller passes.
\<close>

theorem reset_controlled_counterexample:
  "selected controlledProps (st (onResetSelection controlledProps (initState controlledProps)))
     = Some entryA
   \<and> searchText controlledProps
       (st (onResetSelection controlledProps (initState controlledProps))) = ''ann''"
  by (simp add: value_defs handler_defs fixture_defs Let_def)

section \<open>Keys of the search field\<close>

text \<open>
  C4 (as amended): Enter on an empty field calls \<open>onComplete\<close> with no argument (cancel
  is undefined, not \<open>false\<close>) and leaves every cell as it was, so the list is not opened;
  Enter on a non-empty field emits submit instead, which opens the list and requests
  candidates for the current search text.
\<close>

theorem enter_key:
  "(text = [] \<longrightarrow>
      st (searchKeyDown props s 13 text) = s
      \<and> calls (searchKeyDown props s 13 text)
          = opt_call (has_onComplete props) (OnComplete None)
            @ opt_call (has_onKeyDown props) (OnKeyDown 13))
   \<and> (text \<noteq> [] \<longrightarrow>
      emitted (onInputKeyDown (searchPropsOf props) 13 text)
          = Submit # opt_emit (has_onKeyDown props) (KeyDown 13)
      \<and> st (searchKeyDown props s 13 text) = s\<lparr>opened_state := True\<rparr>
      \<and> calls (searchKeyDown props s 13 text)
          = opt_call (has_onLookupRequest props) (OnLookupRequest (searchText props s))
            @ opt_call (has_onKeyDown props) (OnKeyDown 13))"
  by (simp add: search_defs handler_defs Let_def)

text \<open>The theorem on the empty field and on the field holding \<open>ann\<close>.\<close>

theorem enter_key_witness:
  "st (searchKeyDown uncontrolledProps (initState uncontrolledProps) 13 [])
     = initState uncontrolledProps
   \<and> calls (searchKeyDown uncontrolledProps (initState uncontrolledProps) 13 [])
       = [OnComplete None]
   \<and> calls (searchKeyDown uncontrolledProps (initState uncontrolledProps) 13 ''ann'')
       = [OnLookupRequest ''ann'']
   \<and> opened_state (st (searchKeyDown uncontrolledProps (initState uncontrolledProps) 13 ''ann''))"
proof -
  have a: "([]::string) = []" and b: "''ann'' \<noteq> []" by simp_all
  from enter_key [of "[]" uncontrolledProps "initState uncontrolledProps"]
       enter_key [of "''ann''" uncontrolledProps "initState uncontrolledProps"] a b
  show ?thesis
    by (simp add: opt_call_def uncontrolledProps_def value_defs)
qed

text \<open>
  C4 as stated fails: on Enter with an empty field no call \<open>onComplete(false)\<close> is made.
\<close>

theorem enter_empty_counterexample:
  "OnComplete (Some False)
     \<notin> set (calls (searchKeyDown uncontrolledProps (initState uncontrolledProps) 13 []))"
  by (simp add: search_defs handler_defs value_defs fixture_defs)

text \<open>
  C5: Escape on a non-empty field makes exactly one \<open>onComplete\<close> call, with cancel
  \<open>true\<close>, and changes no cell; in particular the search text stays as it was.
\<close>

theorem escape_key:
  assumes "text \<noteq> []" and "has_onComplete props"
  shows "filter isComplete (calls (searchKeyDown props s 27 text)) = [OnComplete (Some True)]
         \<and> st (searchKeyDown props s 27 text) = s
         \<and> searchText props (st (searchKeyDown props s 27 text)) = searchText props s"
  using assms by (simp add: search_defs handler_defs Let_def)

text \<open>The theorem on the field holding \<open>ann\<close>.\<close>

theorem escape_key_witness:
  "filter isComplete
     (calls (searchKeyDown uncontrolledProps (initState uncontrolledProps) 27 ''ann''))
     = [OnComplete (Some True)]
   \<and> searchText uncontrolledProps
       (st (searchKeyDown uncontrolledProps (initState uncontrolledProps) 27 ''ann'')) = ''ann''"
proof -
  have h1: "''ann'' \<noteq> []" by simp
  have h2: "has_onComplete uncontrolledProps" by (simp add: uncontrolledProps_def)
  from escape_key [OF h1 h2, of "initState uncontrolledProps"]
  show ?thesis by (simp add: value_defs uncontrolledProps_def)
qed

section \<open>Pressing the down arrow\<close>

text \<open>
  C6 (as amended): on a closed list \<open>pressDown\<close> is the submit transition: it writes
  \<open>True\<close> into the opened cell (the list is then read as open when \<open>opened\<close> is
  uncontrolled) and calls \<open>onLookupRequest\<close> with the current search text. On an open
  list it sets \<open>focusFirstCandidate\<close> and schedules, 10 ms later, the timer that clears
  it again; \<open>opened\<close> and \<open>searchText\<close> stay as they were and no callback is called.
\<close>

theorem press_down:
  "(\<not> opened props s \<longrightarrow>
      onFocusFirstCandidate props s = onSubmit props s
      \<and> opened_state (st (onFocusFirstCandidate props s))
      \<and> (opened_prop props = None \<longrightarrow> opened props (st (onFocusFirstCandidate props s)))
      \<and> calls (onFocusFirstCandidate props s)
          = opt_call (has_onLookupRequest props) (OnLookupRequest (searchText props s)))
   \<and> (opened props s \<longrightarrow>
      focusFirstCandidate (st (onFocusFirstCandidate props s))
      \<and> timers (onFocusFirstCandidate props s) = [(10, ResetFocusFirstCandidate)]
      \<and> calls (onFocusFirstCandidate props s) = []
      \<and> opened props (st (onFocusFirstCandidate props s))
      \<and> searchText props (st (onFocusFirstCandidate props s)) = searchText props s
      \<and> st (runTimer props (st (onFocusFirstCandidate props s)) inside ResetFocusFirstCandidate)
          = s\<lparr>focusFirstCandidate := False\<rparr>)"
  by (simp add: onFocusFirstCandidate_def onSubmit_def onLookupRequest_def value_defs)

text \<open>The theorem on a closed and on an open uncontrolled widget.\<close>

theorem press_down_witness:
  "\<not> opened uncontrolledProps (initState uncontrolledProps)
   \<and> opened_prop uncontrolledProps = None
   \<and> opened uncontrolledProps (st (onFocusFirstCandidate uncontrolledProps (initState uncontrolledProps)))
   \<and> calls (onFocusFirstCandidate uncontrolledProps (initState uncontrolledProps))
       = [OnLookupRequest ''ann'']
   \<and> opened uncontrolledProps openedState
   \<and> focusFirstCandidate (st (onFocusFirstCandidate uncontrolledProps openedState))
   \<and> timers (onFocusFirstCandidate uncontrolledProps openedState)
       = [(10, ResetFocusFirstCandidate)]
   \<and> \<not> focusFirstCandidate
        (st (runTimer uncontrolledProps (st (onFocusFirstCandidate uncontrolledProps openedState))
               False ResetFocusFirstCandidate))"
proof -
  have h1: "\<not> opened uncontrolledProps (initState uncontrolledProps)"
    by (simp add: value_defs uncontrolledProps_def)
  have h2: "opened_prop uncontrolledProps = None" by (simp add: uncontrolledProps_def)
  have h3: "opened uncontrolledProps openedState"
    by (simp add: value_defs uncontrolledProps_def openedState_def)
  have c: "opt_call (has_onLookupRequest uncontrolledProps)
             (OnLookupRequest (searchText uncontrolledProps (initState uncontrolledProps)))
           = [OnLookupRequest ''ann'']"
    by (simp add: opt_call_def uncontrolledProps_def value_defs)
  from press_down [of uncontrolledProps "initState uncontrolledProps" False] h1 h2
  have closed_case:
    "opened uncontrolledProps
       (st (onFocusFirstCandidate uncontrolledProps (initState uncontrolledProps)))
     \<and> calls (onFocusFirstCandidate uncontrolledProps (initState uncontrolledProps))
         = opt_call (has_onLookupRequest uncontrolledProps)
             (OnLookupRequest (searchText uncontrolledProps (initState uncontrolledProps)))"
    by blast
  from press_down [of uncontrolledProps openedState False] h3
  have open_case:
    "focusFirstCandidate (st (onFocusFirstCandidate uncontrolledProps openedState))
     \<and> timers (onFocusFirstCandidate uncontrolledProps openedState)
         = [(10, ResetFocusFirstCandidate)]
     \<and> st (runTimer uncontrolledProps (st (onFocusFirstCandidate uncontrolledProps openedState))
              False ResetFocusFirstCandidate)
         = openedState\<lparr>focusFirstCandidate := False\<rparr>"
    by blast
  from closed_case open_case c h1 h2 h3 show ?thesis by simp
qed

text \<open>
  C6 as stated fails when the caller controls \<open>opened\<close> and holds it at \<open>false\<close>: the
  list is still read as closed after \<open>pressDown\<close>.
\<close>

theorem press_down_controlled_counterexample:
  "\<not> opened controlledProps (initState controlledProps)
   \<and> \<not> opened controlledProps (st (onFocusFirstCandidate controlledProps (initState controlledProps)))"
  by (simp add: value_defs handler_defs fixture_defs)

section \<open>Roving focus in the candidate list\<close>

lemma walk_unfold_skip:
  "\<not> (k < length rows \<and> focusable (rows ! k)) \<Longrightarrow>
   walk d rows (Some k) = walk d rows (sibling d rows k)"
  by (subst walk.simps(2)) (rule if_not_P)

lemma walk_unfold_hit:
  "k < length rows \<Longrightarrow> focusable (rows ! k) \<Longrightarrow> walk d rows (Some k) = Some k"
  by (simp add: walk.simps(2))

lemma walk_down_Some:
  "walk True rows (Some k) = Some j \<Longrightarrow>
   k \<le> j \<and> j < length rows \<and> focusable (rows ! j)
   \<and> (\<forall>m. k \<le> m \<and> m < j \<longrightarrow> \<not> focusable (rows ! m))"
proof (induction n \<equiv> "length rows - k" arbitrary: k rule: less_induct)
  case less
  show ?case
  proof (cases "k < length rows \<and> focusable (rows ! k)")
    case True
    then have "walk True rows (Some k) = Some k" by (simp add: walk_unfold_hit)
    with less.prems have "j = k" by simp
    with True show ?thesis by auto
  next
    case False
    have w: "walk True rows (sibling True rows k) = Some j"
      using less.prems unfolding walk_unfold_skip [OF False] .
    have lt: "Suc k < length rows"
    proof (rule ccontr)
      assume "\<not> Suc k < length rows"
      then have "sibling True rows k = None" by (simp add: sibling_def)
      with w show False by (simp add: walk.simps(1))
    qed
    then have sib: "sibling True rows k = Some (Suc k)" by (simp add: sibling_def)
    from lt have dec: "length rows - Suc k < length rows - k" by simp
    from w have w': "walk True rows (Some (Suc k)) = Some j" unfolding sib .
    from less.hyps [OF dec w']
    have ih: "Suc k \<le> j \<and> j < length rows \<and> focusable (rows ! j)
              \<and> (\<forall>m. Suc k \<le> m \<and> m < j \<longrightarrow> \<not> focusable (rows ! m))" .
    from False lt have nk: "\<not> focusable (rows ! k)" by simp
    have "\<forall>m. k \<le> m \<and> m < j \<longrightarrow> \<not> focusable (rows ! m)"
    proof (intro allI impI)
      fix m assume m: "k \<le> m \<and> m < j"
      show "\<not> focusable (rows ! m)"
      proof (cases "m = k")
        case True with nk show ?thesis by simp
      next
        case False
        with m have "Suc k \<le> m" by simp
        with ih m show ?thesis by blast
      qed
    qed
    with ih show ?thesis by simp
  qed
qed

lemma walk_down_None:
  "walk True rows (Some k) = None \<Longrightarrow> k \<le> m \<Longrightarrow> m < length rows \<Longrightarrow>
   \<not> focusable (rows ! m)"
proof (induction n \<equiv> "length rows - k" arbitrary: k rule: less_induct)
  case less
  have nf: "\<not> (k < length rows \<and> focusable (rows ! k))"
  proof
    assume "k < length rows \<and> focusable (rows ! k)"
    then have "walk True rows (Some k) = Some k" by (simp add: walk_unfold_hit)
    with less.prems(1) show False by simp
  qed
  have w: "walk True rows (sibling True rows k) = None"
    using less.prems(1) unfolding walk_unfold_skip [OF nf] .
  show ?case
  proof (cases "m = k")
    case True
    with nf less.prems(3) show ?thesis by simp
  next
    case False
    with less.prems(2) have le: "Suc k \<le> m" by simp
    with less.prems(3) have lt: "Suc k < length rows" by simp
    then have sib: "sibling True rows k = Some (Suc k)" by (simp add: sibling_def)
    from lt have dec: "length rows - Suc k < length rows - k" by simp
    from w have w': "walk True rows (Some (Suc k)) = None" unfolding sib .
    from less.hyps [OF dec w' le less.prems(3)] show ?thesis .
  qed
qed

lemma walk_up_Some:
  "walk False rows (Some k) = Some j \<Longrightarrow>
   j \<le> k \<and> j < length rows \<and> focusable (rows ! j)
   \<and> (\<forall>m. j < m \<and> m \<le> k \<and> m < length rows \<longrightarrow> \<not> focusable (rows ! m))"
proof (induction k rule: less_induct)
  case (less k)
  show ?case
  proof (cases "k < length rows \<and> focusable (rows ! k)")
    case True
    then have "walk False rows (Some k) = Some k" by (simp add: walk_unfold_hit)
    with less.prems have "j = k" by simp
    with True show ?thesis by auto
  next
    case False
    have w: "walk False rows (sibling False rows k) = Some j"
      using less.prems unfolding walk_unfold_skip [OF False] .
    have pos: "0 < k"
    proof (rule ccontr)
      assume "\<not> 0 < k"
      then have "sibling False rows k = None" by (simp add: sibling_def)
      with w show False by (simp add: walk.simps(1))
    qed
    then have sib: "sibling False rows k = Some (k - 1)" by (simp add: sibling_def)
    from pos have dec: "k - 1 < k" by simp
    from w have w': "walk False rows (Some (k - 1)) = Some j" unfolding sib .
    from less.IH [OF dec w']
    have ih: "j \<le> k - 1 \<and> j < length rows \<and> focusable (rows ! j)
              \<and> (\<forall>m. j < m \<and> m \<le> k - 1 \<and> m < length rows \<longrightarrow> \<not> focusable (rows ! m))" .
    have "\<forall>m. j < m \<and> m \<le> k \<and> m < length rows \<longrightarrow> \<not> focusable (rows ! m)"
    proof (intro allI impI)
      fix m assume m: "j < m \<and> m \<le> k \<and> m < length rows"
      show "\<not> focusable (rows ! m)"
      proof (cases "m = k")
        case True with False m show ?thesis by simp
      next
        case False
        with m have "m \<le> k - 1" by arith
        with ih m show ?thesis by blast
      qed
    qed
    moreover from ih have "j \<le> k" by arith
    ultimately show ?thesis using ih by blast
  qed
qed

lemma walk_up_None:
  "walk False rows (Some k) = None \<Longrightarrow> m \<le> k \<Longrightarrow> m < length rows \<Longrightarrow>
   \<not> focusable (rows ! m)"
proof (induction k rule: less_induct)
  case (less k)
  have nf: "\<not> (k < length rows \<and> focusable (rows ! k))"
  proof
    assume "k < length rows \<and> focusable (rows ! k)"
    then have "walk False rows (Some k) = Some k" by (simp add: walk_unfold_hit)
    with less.prems(1) show False by simp
  qed
  have w: "walk False rows (sibling False rows k) = None"
    using less.prems(1) unfolding walk_unfold_skip [OF nf] .
  show ?case
  proof (cases "m = k")
    case True
    with nf less.prems(3) show ?thesis by simp
  next
    case False
    with less.prems(2) have le: "m \<le> k - 1" and pos: "0 < k" by arith+
    then have sib: "sibling False rows k = Some (k - 1)" by (simp add: sibling_def)
    from pos have dec: "k - 1 < k" by simp
    from w have w': "walk False rows (Some (k - 1)) = None" unfolding sib .
    from less.IH [OF dec w' le less.prems(3)] show ?thesis .
  qed
qed


lemma down_focus:
  assumes "i < length rows"
  shows "case walk True rows (sibling True rows i) of
           Some j \<Rightarrow> i < j \<and> j < length rows \<and> focusable (rows ! j)
                     \<and> (\<forall>m. i < m \<and> m < j \<longrightarrow> \<not> focusable (rows ! m))
         | None \<Rightarrow> (\<forall>m. i < m \<and> m < length rows \<longrightarrow> \<not> focusable (rows ! m))"
proof (cases "Suc i < length rows")
  case False
  then have "sibling True rows i = None" by (simp add: sibling_def)
  moreover from False have "\<forall>m. i < m \<and> m < length rows \<longrightarrow> \<not> focusable (rows ! m)"
    by auto
  ultimately show ?thesis by (simp add: walk.simps(1))
next
  case True
  then have sib: "sibling True rows i = Some (Suc i)" by (simp add: sibling_def)
  show ?thesis
  proof (cases "walk True rows (Some (Suc i))")
    case None
    have "\<forall>m. i < m \<and> m < length rows \<longrightarrow> \<not> focusable (rows ! m)"
    proof (intro allI impI)
      fix m assume m: "i < m \<and> m < length rows"
      then have "Suc i \<le> m" and "m < length rows" by simp_all
      with walk_down_None [OF None] show "\<not> focusable (rows ! m)" by blast
    qed
    with None sib show ?thesis by simp
  next
    case (Some j)
    from walk_down_Some [OF Some]
    have "i < j \<and> j < length rows \<and> focusable (rows ! j)
          \<and> (\<forall>m. i < m \<and> m < j \<longrightarrow> \<not> focusable (rows ! m))"
      by (simp add: Suc_le_eq)
    with Some sib show ?thesis by simp
  qed
qed

lemma up_focus:
  assumes "i < length rows"
  shows "case walk False rows (sibling False rows i) of
           Some j \<Rightarrow> j < i \<and> focusable (rows ! j)
                     \<and> (\<forall>m. j < m \<and> m < i \<longrightarrow> \<not> focusable (rows ! m))
         | None \<Rightarrow> (\<forall>m. m < i \<longrightarrow> \<not> focusable (rows ! m))"
proof (cases "0 < i")
  case False
  then have "sibling False rows i = None" by (simp add: sibling_def)
  with False show ?thesis by (simp add: walk.simps(1))
next
  case True
  then have sib: "sibling False rows i = Some (i - 1)" by (simp add: sibling_def)
  show ?thesis
  proof (cases "walk False rows (Some (i - 1))")
    case None
    have "\<forall>m. m < i \<longrightarrow> \<not> focusable (rows ! m)"
    proof (intro allI impI)
      fix m assume m: "m < i"
      with assms have "m \<le> i - 1" and "m < length rows" by arith+
      with walk_up_None [OF None] show "\<not> focusable (rows ! m)" by blast
    qed
    with None sib show ?thesis by simp
  next
    case (Some j)
    from walk_up_Some [OF Some]
    have a: "j \<le> i - 1" and b: "focusable (rows ! j)"
      and c: "\<forall>m. j < m \<and> m \<le> i - 1 \<and> m < length rows \<longrightarrow> \<not> focusable (rows ! m)"
      by blast+
    from a True have "j < i" by arith
    moreover have "\<forall>m. j < m \<and> m < i \<longrightarrow> \<not> focusable (rows ! m)"
    proof (intro allI impI)
      fix m assume m: "j < m \<and> m < i"
      with assms have "m \<le> i - 1" and "m < length rows" by arith+
      with c m show "\<not> focusable (rows ! m)" by blast
    qed
    ultimately show ?thesis using Some sib b by simp
  qed
qed

text \<open>
  C7: with the focus on row \<open>i\<close>, Down moves it to the nearest following row that can
  take it (rows without an anchor and disabled rows are skipped) and Up to the nearest
  preceding one; when there is no such row the focus stays on row \<open>i\<close>. The focus never
  wraps to the other end: after Down it is at \<open>i\<close> or below it, after Up at \<open>i\<close> or above.
\<close>

theorem roving_focus:
  assumes "i < length rows"
  shows "((\<exists>k. i < k \<and> k < length rows \<and> focusable (rows ! k)) \<longrightarrow>
            i < focusIndex (listOnKeyDown hs 40 rows i)
            \<and> focusIndex (listOnKeyDown hs 40 rows i) < length rows
            \<and> focusable (rows ! focusIndex (listOnKeyDown hs 40 rows i))
            \<and> (\<forall>m. i < m \<and> m < focusIndex (listOnKeyDown hs 40 rows i)
                   \<longrightarrow> \<not> focusable (rows ! m)))
         \<and> ((\<forall>k. i < k \<and> k < length rows \<longrightarrow> \<not> focusable (rows ! k)) \<longrightarrow>
            focusIndex (listOnKeyDown hs 40 rows i) = i)
         \<and> ((\<exists>k. k < i \<and> focusable (rows ! k)) \<longrightarrow>
            focusIndex (listOnKeyDown hs 38 rows i) < i
            \<and> focusable (rows ! focusIndex (listOnKeyDown hs 38 rows i))
            \<and> (\<forall>m. focusIndex (listOnKeyDown hs 38 rows i) < m \<and> m < i
                   \<longrightarrow> \<not> focusable (rows ! m)))
         \<and> ((\<forall>k. k < i \<longrightarrow> \<not> focusable (rows ! k)) \<longrightarrow>
            focusIndex (listOnKeyDown hs 38 rows i) = i)
         \<and> selects (listOnKeyDown hs 40 rows i) = []
         \<and> selects (listOnKeyDown hs 38 rows i) = []"
proof -
  have d: "listOnKeyDown hs 40 rows i =
             (case walk True rows (sibling True rows i) of
                Some j \<Rightarrow> \<lparr> focusIndex = j, selects = [] \<rparr>
              | None \<Rightarrow> \<lparr> focusIndex = i, selects = [] \<rparr>)"
    by (simp add: listOnKeyDown_def)
  have u: "listOnKeyDown hs 38 rows i =
             (case walk False rows (sibling False rows i) of
                Some j \<Rightarrow> \<lparr> focusIndex = j, selects = [] \<rparr>
              | None \<Rightarrow> \<lparr> focusIndex = i, selects = [] \<rparr>)"
    by (simp add: listOnKeyDown_def)
  from down_focus [OF assms] d
  have down: "((\<exists>k. i < k \<and> k < length rows \<and> focusable (rows ! k)) \<longrightarrow>
            i < focusIndex (listOnKeyDown hs 40 rows i)
            \<and> focusIndex (listOnKeyDown hs 40 rows i) < length rows
            \<and> focusable (rows ! focusIndex (listOnKeyDown hs 40 rows i))
            \<and> (\<forall>m. i < m \<and> m < focusIndex (listOnKeyDown hs 40 rows i)
                   \<longrightarrow> \<not> focusable (rows ! m)))
         \<and> ((\<forall>k. i < k \<and> k < length rows \<longrightarrow> \<not> focusable (rows ! k)) \<longrightarrow>
            focusIndex (listOnKeyDown hs 40 rows i) = i)
         \<and> selects (listOnKeyDown hs 40 rows i) = []"
    by (cases "walk True rows (sibling True rows i)") auto
  from up_focus [OF assms] u
  have up: "((\<exists>k. k < i \<and> focusable (rows ! k)) \<longrightarrow>
            focusIndex (listOnKeyDown hs 38 rows i) < i
            \<and> focusable (rows ! focusIndex (listOnKeyDown hs 38 rows i))
            \<and> (\<forall>m. focusIndex (listOnKeyDown hs 38 rows i) < m \<and> m < i
                   \<longrightarrow> \<not> focusable (rows ! m)))
         \<and> ((\<forall>k. k < i \<longrightarrow> \<not> focusable (rows ! k)) \<longrightarrow>
            focusIndex (listOnKeyDown hs 38 rows i) = i)
         \<and> selects (listOnKeyDown hs 38 rows i) = []"
    by (cases "walk False rows (sibling False rows i)") auto
  from down up show ?thesis by blast
qed

text \<open>
  The theorem on four rows, the second disabled and the third without an anchor: from
  the first row Down reaches the fourth, from the fourth Up reaches the first, and at
  either end the focus stays.
\<close>

theorem roving_focus_witness:
  "(0::nat) < length demoRows \<and> (3::nat) < length demoRows
   \<and> focusable (demoRows ! 3) \<and> \<not> focusable (demoRows ! 1) \<and> \<not> focusable (demoRows ! 2)
   \<and> focusIndex (listOnKeyDown True 40 demoRows 0) = 3
   \<and> focusIndex (listOnKeyDown True 40 demoRows 3) = 3
   \<and> focusIndex (listOnKeyDown True 38 demoRows 3) = 0
   \<and> focusIndex (listOnKeyDown True 38 demoRows 0) = 0"
proof -
  have h0: "(0::nat) < length demoRows" and h3: "(3::nat) < length demoRows"
    by (simp_all add: demoRows_def)
  have f: "focusable (demoRows ! 3)" "\<not> focusable (demoRows ! 1)" "\<not> focusable (demoRows ! 2)"
    "focusable (demoRows ! 0)"
    by (simp_all add: demoRows_def)
  have ex_down: "\<exists>k. 0 < k \<and> k < length demoRows \<and> focusable (demoRows ! k)"
    using h3 f(1) by (intro exI [of _ 3]) simp
  have none_down: "\<forall>k. 3 < k \<and> k < length demoRows \<longrightarrow> \<not> focusable (demoRows ! k)"
    by (simp add: demoRows_def)
  have ex_up: "\<exists>k. k < 3 \<and> focusable (demoRows ! k)"
    using f(4) by (intro exI [of _ 0]) simp
  have none_up: "\<forall>k. k < (0::nat) \<longrightarrow> \<not> focusable (demoRows ! k)" by simp
  note at0 = roving_focus [OF h0, of True]
  note at3 = roving_focus [OF h3, of True]
  from at0 ex_down
  have d0: "0 < focusIndex (listOnKeyDown True 40 demoRows 0)
            \<and> focusIndex (listOnKeyDown True 40 demoRows 0) < length demoRows
            \<and> focusable (demoRows ! focusIndex (listOnKeyDown True 40 demoRows 0))"
    by blast
  have "focusIndex (listOnKeyDown True 40 demoRows 0) = 3"
  proof -
    define j where "j = focusIndex (listOnKeyDown True 40 demoRows 0)"
    have len: "length demoRows = 4" by (simp add: demoRows_def)
    from d0 have "0 < j" "j < length demoRows" "focusable (demoRows ! j)"
      unfolding j_def by blast+
    with len have "j = 1 \<or> j = 2 \<or> j = 3" by arith
    with \<open>focusable (demoRows ! j)\<close> f show ?thesis unfolding j_def by auto
  qed
  moreover from at3 none_down have "focusIndex (listOnKeyDown True 40 demoRows 3) = 3"
    by blast
  moreover from at0 none_up have "focusIndex (listOnKeyDown True 38 demoRows 0) = 0"
    by blast
  moreover have "focusIndex (listOnKeyDown True 38 demoRows 3) = 0"
  proof -
    define j where "j = focusIndex (listOnKeyDown True 38 demoRows 3)"
    from at3 ex_up have "j < 3" "focusable (demoRows ! j)"
      unfolding j_def by blast+
    then have "j = 0 \<or> j = 1 \<or> j = 2" by arith
    with \<open>focusable (demoRows ! j)\<close> f show ?thesis unfolding j_def by auto
  qed
  ultimately show ?thesis using h0 h3 f by simp
qed

text \<open>
  The scenario of three rendered entries: from the second row Down reaches the third, and
  Down again stays there.
\<close>

lemma three_rows_scenario:
  "focusIndex (listOnKeyDown True 40 threeRows 1) = 2
   \<and> focusIndex (listOnKeyDown True 40 threeRows 2) = 2"
  by (simp add: listOnKeyDown_def threeRows_def renderRows_def trueFilter_def sibling_def
      walk.simps)

section \<open>The scope shown on the selector\<close>

lemma scanScopes_find:
  "scanScopes target scs ts =
     (case List.find (\<lambda>s. Some (scope_value s) = ts) scs of
        Some s \<Rightarrow> Some s | None \<Rightarrow> target)"
  by (induction scs) simp_all

text \<open>
  C8: for a non-empty scope list, when no scope has the value \<open>targetScope\<close> (whatever
  that value is, undefined included) the scope shown is the first of the list; when some
  scope has it, the first such scope is shown. The lookup is total: it always yields a
  scope and has no error result.
\<close>

theorem scope_fallback:
  assumes "scs \<noteq> []"
  shows "((\<forall>s \<in> set scs. Some (scope_value s) \<noteq> ts) \<longrightarrow> activeScope scs ts = Some (hd scs))
         \<and> ((\<exists>s \<in> set scs. Some (scope_value s) = ts) \<longrightarrow>
              (\<exists>i < length scs. activeScope scs ts = Some (scs ! i)
                 \<and> Some (scope_value (scs ! i)) = ts
                 \<and> (\<forall>j < i. Some (scope_value (scs ! j)) \<noteq> ts)))
         \<and> activeScope scs ts \<noteq> None"
proof -
  from assms obtain s0 rest where scs: "scs = s0 # rest" by (cases scs) auto
  let ?P = "\<lambda>s. Some (scope_value s) = ts"
  have a: "activeScope scs ts = (case List.find ?P scs of Some s \<Rightarrow> Some s | None \<Rightarrow> Some (hd scs))"
    by (simp add: activeScope_def scanScopes_find scs split: option.splits)
  have none: "(\<forall>s \<in> set scs. Some (scope_value s) \<noteq> ts) \<longrightarrow> activeScope scs ts = Some (hd scs)"
  proof
    assume "\<forall>s \<in> set scs. Some (scope_value s) \<noteq> ts"
    then have "List.find ?P scs = None" by (simp add: find_None_iff)
    with a show "activeScope scs ts = Some (hd scs)" by simp
  qed
  have some: "(\<exists>s \<in> set scs. Some (scope_value s) = ts) \<longrightarrow>
              (\<exists>i < length scs. activeScope scs ts = Some (scs ! i)
                 \<and> Some (scope_value (scs ! i)) = ts
                 \<and> (\<forall>j < i. Some (scope_value (scs ! j)) \<noteq> ts))"
  proof
    assume "\<exists>s \<in> set scs. Some (scope_value s) = ts"
    then have "List.find ?P scs \<noteq> None" by (auto simp: find_None_iff)
    then obtain x where x: "List.find ?P scs = Some x" by auto
    then obtain i where "i < length scs" "?P (scs ! i)" "x = scs ! i" "\<forall>j < i. \<not> ?P (scs ! j)"
      unfolding find_Some_iff by blast
    with a x show "\<exists>i < length scs. activeScope scs ts = Some (scs ! i)
                 \<and> Some (scope_value (scs ! i)) = ts
                 \<and> (\<forall>j < i. Some (scope_value (scs ! j)) \<noteq> ts)"
      by auto
  qed
  have "activeScope scs ts \<noteq> None" using a by (simp split: option.splits)
  with none some show ?thesis by blast
qed

text \<open>The theorem on two scopes, with an unknown, an undefined and a known target.\<close>

theorem scope_fallback_witness:
  "demoScopes \<noteq> []
   \<and> activeScope demoScopes (Some ''zzz'') = Some (hd demoScopes)
   \<and> activeScope demoScopes None = Some (hd demoScopes)
   \<and> activeScope demoScopes (Some ''con'') = Some (demoScopes ! 1)
   \<and> scopeIcon (activeScope demoScopes (Some ''zzz'')) = ''account''"
proof -
  have h: "demoScopes \<noteq> []" by (simp add: demoScopes_def)
  have n1: "\<forall>s \<in> set demoScopes. Some (scope_value s) \<noteq> Some ''zzz''"
    by (simp add: demoScopes_def)
  have n2: "\<forall>s \<in> set demoScopes. Some (scope_value s) \<noteq> None" by simp
  from scope_fallback [OF h, of "Some ''zzz''"] n1
  have a: "activeScope demoScopes (Some ''zzz'') = Some (hd demoScopes)" by blast
  from scope_fallback [OF h, of None] n2
  have b: "activeScope demoScopes None = Some (hd demoScopes)" by blast
  have c: "activeScope demoScopes (Some ''con'') = Some (demoScopes ! 1)"
    by (simp add: activeScope_def demoScopes_def)
  from a have d: "scopeIcon (activeScope demoScopes (Some ''zzz'')) = ''account''"
    by (simp add: scopeIcon_def demoScopes_def)
  from h a b c d show ?thesis by simp
qed

section \<open>Losing the focus\<close>

lemma blurAll_pending:
  "st (blurAll props s evs) = s \<and> calls (blurAll props s evs) = []
   \<and> timers (blurAll props s evs)
       = replicate (reportedBlurs evs) (500, BlurCheck)"
  by (induction evs arbitrary: s)
     (auto simp: elementBlur_def onBlur_def reportedBlurs_def Let_def)

lemma runPending_checks:
  "calls (runPending props s (map (\<lambda>b. ((500, BlurCheck), b)) answers))
     = concat (map (\<lambda>b. if b then [] else blurCalls props) answers)
   \<and> st (runPending props s (map (\<lambda>b. ((500, BlurCheck), b)) answers))
     = (if False \<in> set answers then s\<lparr>opened_state := False\<rparr> else s)
   \<and> timers (runPending props s (map (\<lambda>b. ((500, BlurCheck), b)) answers)) = []"
proof (induction answers arbitrary: s)
  case Nil
  show ?case by simp
next
  case (Cons b bs)
  show ?case
  proof (cases b)
    case True
    with Cons [of s] show ?thesis by (simp add: Let_def)
  next
    case False
    with Cons [of "s\<lparr>opened_state := False\<rparr>"] show ?thesis
      by (simp add: Let_def blurCalls_def)
  qed
qed

lemma blurCalls_count:
  "concat (map (\<lambda>b. if b then [] else blurCalls props) answers)
     = concat (replicate (length (filter Not answers)) (blurCalls props))"
  by (induction answers) simp_all

lemma blurCalls_filter_blur:
  "has_onBlur props \<Longrightarrow>
   filter isBlur (concat (replicate n (blurCalls props))) = replicate n OnBlur"
  by (induction n) (simp_all add: blurCalls_def opt_call_def)

lemma blurCalls_filter_complete:
  "has_onComplete props \<Longrightarrow>
   filter isComplete (concat (replicate n (blurCalls props)))
     = replicate n (OnComplete (Some True))"
  by (induction n) (simp_all add: blurCalls_def opt_call_def)

lemma zip_replicate_answers:
  "length answers = n \<Longrightarrow> zip (replicate n x) answers = map (\<lambda>b. (x, b)) answers"
  by (induction answers arbitrary: n) auto

text \<open>
  C9 (as amended): a blur is reported to \<open>Lookup\<close> when it comes from a candidate row, or
  from a control of the search bar whose own 10 ms check finds the focus outside the
  search bar; a blur of the selection pill is not reported. A reported blur changes
  nothing at once and schedules one boundary check 500 ms later, which nothing cancels.
  Every check that finds the focus outside the widget writes \<open>False\<close> into the opened cell
  (the list is then read as closed when \<open>opened\<close> is uncontrolled) and calls \<open>onBlur\<close>
  and \<open>onComplete(true)\<close> once each when supplied, so the two callbacks fire as many times
  as checks found the focus outside: exactly once when one blur was reported. A check
  that finds the focus inside changes no cell and calls nothing.
\<close>

theorem blur_check:
  "st (onBlur props s) = s \<and> calls (onBlur props s) = []
   \<and> timers (onBlur props s) = [(500, BlurCheck)]
   \<and> st (blurAll props s evs) = s \<and> calls (blurAll props s evs) = []
   \<and> timers (blurAll props s evs) = replicate (reportedBlurs evs) (500, BlurCheck)
   \<and> (length answers = reportedBlurs evs \<longrightarrow>
        afterBlurs props s evs answers = runPending props s (blurChecks answers))
   \<and> calls (runPending props s (blurChecks answers))
       = concat (replicate (foundOutside answers) (blurCalls props))
   \<and> st (runPending props s (blurChecks answers))
       = (if False \<in> set answers then s\<lparr>opened_state := False\<rparr> else s)
   \<and> (opened_prop props = None \<longrightarrow> False \<in> set answers \<longrightarrow>
        \<not> opened props (st (runPending props s (blurChecks answers))))
   \<and> (has_onBlur props \<longrightarrow>
        filter isBlur (calls (runPending props s (blurChecks answers)))
          = replicate (foundOutside answers) OnBlur)
   \<and> (has_onComplete props \<longrightarrow>
        filter isComplete (calls (runPending props s (blurChecks answers)))
          = replicate (foundOutside answers) (OnComplete (Some True)))"
proof -
  note p = blurAll_pending [of props s evs]
  note r = runPending_checks [of props s answers]
  have c: "calls (runPending props s (blurChecks answers))
             = concat (replicate (foundOutside answers) (blurCalls props))"
    using r by (simp add: blurChecks_def foundOutside_def blurCalls_count)
  have s: "st (runPending props s (blurChecks answers))
             = (if False \<in> set answers then s\<lparr>opened_state := False\<rparr> else s)"
    using r by (simp add: blurChecks_def)
  have a: "length answers = reportedBlurs evs \<longrightarrow>
        afterBlurs props s evs answers = runPending props s (blurChecks answers)"
    using p by (simp add: afterBlurs_def Let_def blurChecks_def zip_replicate_answers)
  have o: "opened_prop props = None \<longrightarrow> False \<in> set answers \<longrightarrow>
        \<not> opened props (st (runPending props s (blurChecks answers)))"
    by (simp add: s opened_def useControlledValue_def)
  have b: "has_onBlur props \<longrightarrow>
        filter isBlur (calls (runPending props s (blurChecks answers)))
          = replicate (foundOutside answers) OnBlur"
    by (simp add: c blurCalls_filter_blur)
  have d: "has_onComplete props \<longrightarrow>
        filter isComplete (calls (runPending props s (blurChecks answers)))
          = replicate (foundOutside answers) (OnComplete (Some True))"
    by (simp add: c blurCalls_filter_complete)
  have e: "st (onBlur props s) = s \<and> calls (onBlur props s) = []
           \<and> timers (onBlur props s) = [(500, BlurCheck)]"
    by (simp add: onBlur_def)
  from e p a c s o b d show ?thesis by blast
qed

text \<open>
  The theorem on an open uncontrolled widget whose search field loses the focus: one
  check is pending; finding the focus outside it closes the list and calls each callback
  once, finding it inside it does nothing.
\<close>

theorem blur_check_witness:
  "opened_prop uncontrolledProps = None \<and> has_onBlur uncontrolledProps
   \<and> has_onComplete uncontrolledProps
   \<and> length [False] = reportedBlurs [(SearchControl, False)]
   \<and> timers (blurAll uncontrolledProps openedState [(SearchControl, False)])
       = [(500, BlurCheck)]
   \<and> \<not> opened uncontrolledProps
        (st (afterBlurs uncontrolledProps openedState [(SearchControl, False)] [False]))
   \<and> filter isBlur
        (calls (afterBlurs uncontrolledProps openedState [(SearchControl, False)] [False]))
       = [OnBlur]
   \<and> filter isComplete
        (calls (afterBlurs uncontrolledProps openedState [(SearchControl, False)] [False]))
       = [OnComplete (Some True)]
   \<and> st (afterBlurs uncontrolledProps openedState [(SearchControl, False)] [True])
       = openedState
   \<and> calls (afterBlurs uncontrolledProps openedState [(SearchControl, False)] [True]) = []"
proof -
  have h1: "opened_prop uncontrolledProps = None" and h2: "has_onBlur uncontrolledProps"
    and h3: "has_onComplete uncontrolledProps"
    by (simp_all add: uncontrolledProps_def)
  have n: "reportedBlurs [(SearchControl, False)] = 1"
    by (simp add: reportedBlurs_def blurReported_def)
  have l1: "length [False] = reportedBlurs [(SearchControl, False)]"
    and l2: "length [True] = reportedBlurs [(SearchControl, False)]"
    by (simp_all add: n)
  have m: "False \<in> set [False]" "False \<notin> set [True]" by simp_all
  have k: "foundOutside [False] = 1" "foundOutside [True] = 0"
    by (simp_all add: foundOutside_def)
  note out = blur_check [of uncontrolledProps openedState "[(SearchControl, False)]" "[False]"]
  note ins = blur_check [of uncontrolledProps openedState "[(SearchControl, False)]" "[True]"]
  from out l1 have e1:
    "afterBlurs uncontrolledProps openedState [(SearchControl, False)] [False]
       = runPending uncontrolledProps openedState (blurChecks [False])"
    by blast
  from ins l2 have e2:
    "afterBlurs uncontrolledProps openedState [(SearchControl, False)] [True]
       = runPending uncontrolledProps openedState (blurChecks [True])"
    by blast
  from out have t: "timers (blurAll uncontrolledProps openedState [(SearchControl, False)])
       = replicate (reportedBlurs [(SearchControl, False)]) (500, BlurCheck)"
    by blast
  from out h1 m(1) have o: "\<not> opened uncontrolledProps
       (st (runPending uncontrolledProps openedState (blurChecks [False])))"
    by blast
  from out h2 have b: "filter isBlur
       (calls (runPending uncontrolledProps openedState (blurChecks [False])))
       = replicate (foundOutside [False]) OnBlur"
    by blast
  from out h3 have c: "filter isComplete
       (calls (runPending uncontrolledProps openedState (blurChecks [False])))
       = replicate (foundOutside [False]) (OnComplete (Some True))"
    by blast
  from ins have s2: "st (runPending uncontrolledProps openedState (blurChecks [True]))
       = (if False \<in> set [True] then openedState\<lparr>opened_state := False\<rparr> else openedState)"
    by blast
  from ins have c2: "calls (runPending uncontrolledProps openedState (blurChecks [True]))
       = concat (replicate (foundOutside [True]) (blurCalls uncontrolledProps))"
    by blast
  from h1 h2 h3 l1 t o b c s2 c2 show ?thesis
    by (simp add: e1 e2 n k)
qed

text \<open>
  C9 as stated fails in three ways. When the caller controls \<open>opened\<close> and holds it at
  \<open>true\<close>, the list is still read as open after the check found the focus outside. When
  the focus went from the search field to a candidate row and from there out of the
  widget before the first check ran, two checks find it outside and each callback fires
  twice. When the focus leaves from the selection pill, no check is scheduled, an open
  list stays open and no callback fires.
\<close>

theorem blur_check_counterexample:
  "opened controlledOpenProps
     (st (afterBlurs controlledOpenProps (initState controlledOpenProps)
            [(CandidateAnchor, False)] [False]))
   \<and> filter isBlur
       (calls (afterBlurs uncontrolledProps openedState
                 [(SearchControl, False), (CandidateAnchor, False)] [False, False]))
       = [OnBlur, OnBlur]
   \<and> filter isComplete
       (calls (afterBlurs uncontrolledProps openedState
                 [(SearchControl, False), (CandidateAnchor, False)] [False, False]))
       = [OnComplete (Some True), OnComplete (Some True)]
   \<and> timers (blurAll uncontrolledProps pillOpenState [(SelectionPill, False)]) = []
   \<and> opened uncontrolledProps pillOpenState
   \<and> afterBlurs uncontrolledProps pillOpenState [(SelectionPill, False)] []
       = \<lparr> st = pillOpenState, calls = [], timers = [] \<rparr>"
  by (simp add: afterBlurs_def elementBlur_def blurReported_def onBlur_def opt_call_def
      value_defs fixture_defs openedState_def pillOpenState_def Let_def)

section \<open>Completion after a selection event\<close>

text \<open>
  C10: every selection event of the candidate list, \<open>select(e)\<close> as well as
  \<open>select(null)\<close>, ends with one call of \<open>onComplete\<close> without an argument (cancel
  undefined), after the \<open>onSelect\<close> notification that only \<open>select(e)\<close> makes.
\<close>

theorem select_completes:
  assumes "has_onComplete props"
  shows "filter isComplete (calls (onLookupItemSelect props s sel)) = [OnComplete None]
         \<and> calls (onLookupItemSelect props s sel)
             = (case sel of
                  Some e \<Rightarrow> opt_call (has_onSelect props) (OnSelect (Some e))
                | None \<Rightarrow> [])
               @ [OnComplete None]"
  using assms by (cases sel) (simp_all add: onLookupItemSelect_def opt_call_def)

text \<open>
  The theorem on both kinds of event, with the list's handlers that raise them: Escape
  raises \<open>select(null)\<close>, a click or Enter on a row raises \<open>select(entry)\<close>.
\<close>

theorem select_completes_witness:
  "has_onComplete uncontrolledProps
   \<and> calls (onLookupItemSelect uncontrolledProps openedState (Some entryA))
       = [OnSelect (Some entryA), OnComplete None]
   \<and> calls (onLookupItemSelect uncontrolledProps openedState None) = [OnComplete None]
   \<and> selects (listOnKeyDown True 27 demoRows 0) = [None]
   \<and> rowOnClick True entryA = [Some entryA]
   \<and> rowOnKeyDown True 13 entryA = [Some entryA]"
proof -
  have h: "has_onComplete uncontrolledProps" and hs: "has_onSelect uncontrolledProps"
    by (simp_all add: uncontrolledProps_def)
  from select_completes [OF h, of openedState "Some entryA"] hs
  have a: "calls (onLookupItemSelect uncontrolledProps openedState (Some entryA))
       = [OnSelect (Some entryA), OnComplete None]"
    by (simp add: opt_call_def)
  from select_completes [OF h, of openedState None]
  have b: "calls (onLookupItemSelect uncontrolledProps openedState None) = [OnComplete None]"
    by simp
  have c: "selects (listOnKeyDown True 27 demoRows 0) = [None]"
    "rowOnClick True entryA = [Some entryA]" "rowOnKeyDown True 13 entryA = [Some entryA]"
    by (simp_all add: listOnKeyDown_def rowOnClick_def rowOnKeyDown_def)
  from h a b c show ?thesis by simp
qed

end
